theory Spec2Isabelle
  imports Main "HOL-Library.Monad_Syntax" "HOL-Library.Char_ord" "HOL-Library.List_Lexorder"
begin

section \<open>The gate's credential registry (src/gate/gate_auth.h)\<close>

text \<open>
  The header keeps two \<^verbatim>\<open>std::map<std::string, std::string>\<close> globals, a function-local
  \<^verbatim>\<open>static bool initialized\<close>, and reads and writes two ESPHome string globals,
  \<^verbatim>\<open>id(stored_codes)\<close> and \<^verbatim>\<open>id(stored_tags)\<close>. All of it is threaded through an explicit
  state record. A \<^verbatim>\<open>std::map\<close> iterates in ascending key order and holds every key once, so
  it is an association list whose keys are strictly ascending; \<^verbatim>\<open>std::string\<close> compares
  bytewise and lexicographically, which is the order of \<open>char list\<close> used here.
  The \<^verbatim>\<open>std::out_of_range\<close> that \<^verbatim>\<open>substr\<close> and \<^verbatim>\<open>erase\<close> throw is the value \<open>None\<close>.
\<close>

subsection \<open>std::string\<close>

text \<open>\<^verbatim>\<open>s.find(c)\<close>: the index of the first occurrence, \<open>None\<close> for \<^verbatim>\<open>npos\<close>.\<close>

fun find_char :: "char \<Rightarrow> string \<Rightarrow> nat option" where
  "find_char c [] = None"
| "find_char c (x # xs) = (if x = c then Some 0 else map_option Suc (find_char c xs))"

text \<open>\<^verbatim>\<open>s.substr(pos, count)\<close>; throws when \<^verbatim>\<open>pos > size()\<close>, clips the count.\<close>

definition substr :: "string \<Rightarrow> nat \<Rightarrow> nat \<Rightarrow> string option" where
  "substr s pos count = (if length s < pos then None else Some (take count (drop pos s)))"

text \<open>\<^verbatim>\<open>s.substr(pos)\<close>, the count left at \<^verbatim>\<open>npos\<close>.\<close>

definition substr_from :: "string \<Rightarrow> nat \<Rightarrow> string option" where
  "substr_from s pos = (if length s < pos then None else Some (drop pos s))"

text \<open>\<^verbatim>\<open>s.erase(index, count)\<close>; throws when \<^verbatim>\<open>index > size()\<close>.\<close>

definition erase :: "string \<Rightarrow> nat \<Rightarrow> nat \<Rightarrow> string option" where
  "erase s index count =
     (if length s < index then None else Some (take index s @ drop (index + count) s))"

subsection \<open>std::map<std::string, std::string>\<close>

type_synonym cred_map = "(string \<times> string) list"

definition wf_map :: "cred_map \<Rightarrow> bool" where
  "wf_map m = sorted_wrt (<) (map fst m)"

text \<open>\<^verbatim>\<open>m[key] = value\<close>: overwrite the entry of the key, or insert it at its place.\<close>

fun map_assign :: "string \<Rightarrow> string \<Rightarrow> cred_map \<Rightarrow> cred_map" where
  "map_assign key val [] = [(key, val)]"
| "map_assign key val ((k, v) # m) =
     (if key = k then (key, val) # m
      else if key < k then (key, val) # (k, v) # m
      else (k, v) # map_assign key val m)"

text \<open>\<^verbatim>\<open>m.find(key)\<close>: \<open>None\<close> stands for \<^verbatim>\<open>m.end()\<close>, \<open>Some v\<close> for an iterator whose
  \<^verbatim>\<open>second\<close> is \<open>v\<close>.\<close>

fun map_find :: "string \<Rightarrow> cred_map \<Rightarrow> string option" where
  "map_find key [] = None"
| "map_find key ((k, v) # m) = (if key = k then Some v else map_find key m)"

text \<open>\<^verbatim>\<open>m.erase(it)\<close> for the iterator that \<^verbatim>\<open>m.find(key)\<close> returned.\<close>

fun map_erase :: "string \<Rightarrow> cred_map \<Rightarrow> cred_map" where
  "map_erase key [] = []"
| "map_erase key ((k, v) # m) = (if key = k then m else (k, v) # map_erase key m)"

subsection \<open>Codec\<close>

definition MAX_CODES :: nat where
  "MAX_CODES = 50"

definition MAX_TAGS :: nat where
  "MAX_TAGS = 50"

text \<open>
  Lines 24-29 and 33-38 of the source are the same block, once on \<^verbatim>\<open>entry\<close> and once on
  what is left of \<^verbatim>\<open>data\<close>: find the first colon, and when there is one store
  \<^verbatim>\<open>substr(0, colon_pos)\<close> under \<^verbatim>\<open>substr(colon_pos + 1)\<close>.
\<close>

definition parse_entry :: "string \<Rightarrow> cred_map \<Rightarrow> cred_map option" where
  "parse_entry entry target_map =
     (case find_char CHR '':'' entry of
        None \<Rightarrow> Some target_map
      | Some colon_pos \<Rightarrow>
          (case substr entry 0 colon_pos of
             None \<Rightarrow> None
           | Some key \<Rightarrow>
               (case substr_from entry (colon_pos + 1) of
                  None \<Rightarrow> None
                | Some val \<Rightarrow> Some (map_assign key val target_map))))"

text \<open>The \<^verbatim>\<open>while\<close> loop of lines 22-31 followed by the last entry of lines 33-38.\<close>

function parse_loop :: "string \<Rightarrow> cred_map \<Rightarrow> cred_map option" where
  "parse_loop data target_map =
     (case find_char CHR '','' data of
        None \<Rightarrow> parse_entry data target_map
      | Some pos \<Rightarrow>
          (case substr data 0 pos of
             None \<Rightarrow> None
           | Some entry \<Rightarrow>
               (case parse_entry entry target_map of
                  None \<Rightarrow> None
                | Some target_map' \<Rightarrow>
                    (case erase data 0 (pos + 1) of
                       None \<Rightarrow> None
                     | Some data' \<Rightarrow> parse_loop data' target_map'))))"
  by pat_completeness auto

termination parse_loop
proof (relation "measure (\<lambda>(data, target_map). length data)")
  show "wf (measure (\<lambda>(data, target_map). length data))"
    by simp
next
  fix data :: string and target_map :: cred_map
  fix pos entry target_map' data'
  assume found: "find_char CHR '','' data = Some pos"
    and erased: "erase data 0 (pos + 1) = Some data'"
  have less: "p < length s" if "find_char c s = Some p" for c s p
    using that by (induction s arbitrary: p) (auto split: if_splits)
  from erased less [OF found] show "((data', target_map'), (data, target_map))
      \<in> measure (\<lambda>(data, target_map). length data)"
    by (auto simp: erase_def)
qed

declare parse_loop.simps [simp del]

definition parse_stored_credentials :: "string \<Rightarrow> cred_map \<Rightarrow> cred_map option" where
  "parse_stored_credentials stored_data target_map =
     (if stored_data = [] then Some target_map else parse_loop stored_data target_map)"

text \<open>The \<^verbatim>\<open>for\<close> loop of \<^verbatim>\<open>credentials_to_string\<close>: the entries still to visit, \<^verbatim>\<open>result\<close>
  and \<^verbatim>\<open>first\<close>.\<close>

fun to_string_loop :: "cred_map \<Rightarrow> string \<Rightarrow> bool \<Rightarrow> string" where
  "to_string_loop [] result first = result"
| "to_string_loop ((k, v) # rest) result first =
     to_string_loop rest
       ((if \<not> first then result @ '','' else result) @ (k @ '':'' @ v)) False"

definition credentials_to_string :: "cred_map \<Rightarrow> string" where
  "credentials_to_string creds_map = to_string_loop creds_map [] True"

subsection \<open>Registry state\<close>

datatype cred_class = Code | Tag

text \<open>
  What the registry does to the persisted globals, in program order: \<open>Load c\<close> is a read
  of \<^verbatim>\<open>id(stored_codes)\<close> or \<^verbatim>\<open>id(stored_tags)\<close> (lines 70-71), \<open>Store c s\<close> an assignment to
  it (lines 58-59).
\<close>

datatype event = Load cred_class | Store cred_class string

record state =
  authorized_codes :: cred_map
  authorized_tags :: cred_map
  initialized :: bool
  stored_codes :: string
  stored_tags :: string
  events :: "event list"

text \<open>The state of a fresh process: both maps empty, the flag false, the globals as restored.\<close>

definition boot :: "string \<Rightarrow> string \<Rightarrow> state" where
  "boot codes_data tags_data =
     \<lparr>authorized_codes = [], authorized_tags = [], initialized = False,
      stored_codes = codes_data, stored_tags = tags_data, events = []\<rparr>"

text \<open>
  The mutators return \<^verbatim>\<open>void\<close>; the outcome tells which branch ran: \<open>CapacityExceeded\<close> is
  the early return of lines 92-95 and 106-109, \<open>NotFound\<close> the \<^verbatim>\<open>else\<close> of lines 125-127
  and 139-141, \<open>Done\<close> every other path.
\<close>

datatype outcome = Done | CapacityExceeded | NotFound

definition save_credentials :: "state \<Rightarrow> state" where
  "save_credentials s =
     (let codes_str = credentials_to_string (authorized_codes s);
          tags_str = credentials_to_string (authorized_tags s)
      in s\<lparr>stored_codes := codes_str, stored_tags := tags_str,
            events := events s @ [Store Code codes_str, Store Tag tags_str]\<rparr>)"

definition init_default_auth :: "state \<Rightarrow> state option" where
  "init_default_auth s =
     (if \<not> initialized s then
        (let codes_data = stored_codes s; tags_data = stored_tags s
         in case parse_stored_credentials codes_data (authorized_codes s) of
              None \<Rightarrow> None
            | Some codes \<Rightarrow>
                (case parse_stored_credentials tags_data (authorized_tags s) of
                   None \<Rightarrow> None
                 | Some tags \<Rightarrow>
                     Some (s\<lparr>authorized_codes := codes, authorized_tags := tags,
                              initialized := True,
                              events := events s @ [Load Code, Load Tag]\<rparr>)))
      else Some s)"

subsection \<open>Registry operations\<close>

definition add_authorized_code :: "string \<Rightarrow> string \<Rightarrow> state \<Rightarrow> (outcome \<times> state) option" where
  "add_authorized_code code name s0 = do {
     s \<leftarrow> init_default_auth s0;
     if MAX_CODES \<le> length (authorized_codes s) then Some (CapacityExceeded, s)
     else Some (Done, save_credentials
       (s\<lparr>authorized_codes := map_assign code name (authorized_codes s)\<rparr>))
   }"

definition add_authorized_tag :: "string \<Rightarrow> string \<Rightarrow> state \<Rightarrow> (outcome \<times> state) option" where
  "add_authorized_tag tag name s0 = do {
     s \<leftarrow> init_default_auth s0;
     if MAX_TAGS \<le> length (authorized_tags s) then Some (CapacityExceeded, s)
     else Some (Done, save_credentials
       (s\<lparr>authorized_tags := map_assign tag name (authorized_tags s)\<rparr>))
   }"

definition remove_authorized_code :: "string \<Rightarrow> state \<Rightarrow> (outcome \<times> state) option" where
  "remove_authorized_code code s0 = do {
     s \<leftarrow> init_default_auth s0;
     case map_find code (authorized_codes s) of
       Some name \<Rightarrow> Some (Done, save_credentials
         (s\<lparr>authorized_codes := map_erase code (authorized_codes s)\<rparr>))
     | None \<Rightarrow> Some (NotFound, s)
   }"

definition remove_authorized_tag :: "string \<Rightarrow> state \<Rightarrow> (outcome \<times> state) option" where
  "remove_authorized_tag tag s0 = do {
     s \<leftarrow> init_default_auth s0;
     case map_find tag (authorized_tags s) of
       Some name \<Rightarrow> Some (Done, save_credentials
         (s\<lparr>authorized_tags := map_erase tag (authorized_tags s)\<rparr>))
     | None \<Rightarrow> Some (NotFound, s)
   }"

text \<open>The two clearing functions do not call \<^verbatim>\<open>init_default_auth\<close> (lines 145-156).\<close>

definition clear_all_codes :: "state \<Rightarrow> (outcome \<times> state) option" where
  "clear_all_codes s = Some (Done, save_credentials (s\<lparr>authorized_codes := []\<rparr>))"

definition clear_all_tags :: "state \<Rightarrow> (outcome \<times> state) option" where
  "clear_all_tags s = Some (Done, save_credentials (s\<lparr>authorized_tags := []\<rparr>))"

definition check_authorized_code :: "string \<Rightarrow> state \<Rightarrow> (bool \<times> state) option" where
  "check_authorized_code code s0 = do {
     s \<leftarrow> init_default_auth s0;
     Some (map_find code (authorized_codes s) \<noteq> None, s)
   }"

definition check_authorized_tag :: "string \<Rightarrow> state \<Rightarrow> (bool \<times> state) option" where
  "check_authorized_tag tag s0 = do {
     s \<leftarrow> init_default_auth s0;
     Some (map_find tag (authorized_tags s) \<noteq> None, s)
   }"

definition get_code_user_name :: "string \<Rightarrow> state \<Rightarrow> (string \<times> state) option" where
  "get_code_user_name code s0 = do {
     s \<leftarrow> init_default_auth s0;
     case map_find code (authorized_codes s) of
       Some name \<Rightarrow> Some (name, s)
     | None \<Rightarrow> Some (''Unknown'', s)
   }"

definition get_tag_user_name :: "string \<Rightarrow> state \<Rightarrow> (string \<times> state) option" where
  "get_tag_user_name tag s0 = do {
     s \<leftarrow> init_default_auth s0;
     case map_find tag (authorized_tags s) of
       Some name \<Rightarrow> Some (name, s)
     | None \<Rightarrow> Some (''Unknown'', s)
   }"

text \<open>The listing functions only log; the result is the sequence of pairs they log.\<close>

definition list_authorized_codes :: "state \<Rightarrow> (cred_map \<times> state) option" where
  "list_authorized_codes s0 = do {
     s \<leftarrow> init_default_auth s0;
     Some (authorized_codes s, s)
   }"

definition list_authorized_tags :: "state \<Rightarrow> (cred_map \<times> state) option" where
  "list_authorized_tags s0 = do {
     s \<leftarrow> init_default_auth s0;
     Some (authorized_tags s, s)
   }"

subsection \<open>Sequences of calls\<close>

text \<open>A caller of the header makes one of its twelve public calls after another.\<close>

datatype call =
    AddCode string string | AddTag string string
  | RemoveCode string | RemoveTag string
  | ClearCodes | ClearTags
  | CheckCode string | CheckTag string
  | CodeUserName string | TagUserName string
  | ListCodes | ListTags

fun exec :: "call \<Rightarrow> state \<Rightarrow> state option" where
  "exec (AddCode code name) s = map_option snd (add_authorized_code code name s)"
| "exec (AddTag tag name) s = map_option snd (add_authorized_tag tag name s)"
| "exec (RemoveCode code) s = map_option snd (remove_authorized_code code s)"
| "exec (RemoveTag tag) s = map_option snd (remove_authorized_tag tag s)"
| "exec ClearCodes s = map_option snd (clear_all_codes s)"
| "exec ClearTags s = map_option snd (clear_all_tags s)"
| "exec (CheckCode code) s = map_option snd (check_authorized_code code s)"
| "exec (CheckTag tag) s = map_option snd (check_authorized_tag tag s)"
| "exec (CodeUserName code) s = map_option snd (get_code_user_name code s)"
| "exec (TagUserName tag) s = map_option snd (get_tag_user_name tag s)"
| "exec ListCodes s = map_option snd (list_authorized_codes s)"
| "exec ListTags s = map_option snd (list_authorized_tags s)"

fun run :: "call list \<Rightarrow> state \<Rightarrow> state option" where
  "run [] s = Some s"
| "run (c # cs) s = (case exec c s of None \<Rightarrow> None | Some s' \<Rightarrow> run cs s')"

text \<open>How often the persisted string of a class has been read, and what has been stored.\<close>

definition loads :: "cred_class \<Rightarrow> state \<Rightarrow> nat" where
  "loads c s = count_list (events s) (Load c)"

fun is_store :: "event \<Rightarrow> bool" where
  "is_store (Store c v) = True"
| "is_store (Load c) = False"

definition stores :: "state \<Rightarrow> event list" where
  "stores s = filter is_store (events s)"

subsection \<open>The two classes side by side\<close>

text \<open>
  The header has every operation twice, once for codes and once for tags. The following
  functions pick the one of the class, so that a property of both is stated once.
\<close>

fun creds :: "cred_class \<Rightarrow> state \<Rightarrow> cred_map" where
  "creds Code s = authorized_codes s"
| "creds Tag s = authorized_tags s"

fun stored :: "cred_class \<Rightarrow> state \<Rightarrow> string" where
  "stored Code s = stored_codes s"
| "stored Tag s = stored_tags s"

fun capacity :: "cred_class \<Rightarrow> nat" where
  "capacity Code = MAX_CODES"
| "capacity Tag = MAX_TAGS"

fun other :: "cred_class \<Rightarrow> cred_class" where
  "other Code = Tag"
| "other Tag = Code"

fun add_credential :: "cred_class \<Rightarrow> string \<Rightarrow> string \<Rightarrow> state \<Rightarrow> (outcome \<times> state) option" where
  "add_credential Code = add_authorized_code"
| "add_credential Tag = add_authorized_tag"

fun remove_credential :: "cred_class \<Rightarrow> string \<Rightarrow> state \<Rightarrow> (outcome \<times> state) option" where
  "remove_credential Code = remove_authorized_code"
| "remove_credential Tag = remove_authorized_tag"

fun clear :: "cred_class \<Rightarrow> state \<Rightarrow> (outcome \<times> state) option" where
  "clear Code = clear_all_codes"
| "clear Tag = clear_all_tags"

fun is_authorized :: "cred_class \<Rightarrow> string \<Rightarrow> state \<Rightarrow> (bool \<times> state) option" where
  "is_authorized Code = check_authorized_code"
| "is_authorized Tag = check_authorized_tag"

fun principal_name :: "cred_class \<Rightarrow> string \<Rightarrow> state \<Rightarrow> (string \<times> state) option" where
  "principal_name Code = get_code_user_name"
| "principal_name Tag = get_tag_user_name"

fun list_credentials :: "cred_class \<Rightarrow> state \<Rightarrow> (cred_map \<times> state) option" where
  "list_credentials Code = list_authorized_codes"
| "list_credentials Tag = list_authorized_tags"

text \<open>One call of \<^verbatim>\<open>save_credentials\<close> since \<open>s0\<close>, made on the maps that \<open>s'\<close> holds.\<close>

definition saved_once :: "state \<Rightarrow> state \<Rightarrow> bool" where
  "saved_once s0 s' \<longleftrightarrow>
     stores s' = stores s0 @
       [Store Code (credentials_to_string (authorized_codes s')),
        Store Tag (credentials_to_string (authorized_tags s'))] \<and>
     stored_codes s' = credentials_to_string (authorized_codes s') \<and>
     stored_tags s' = credentials_to_string (authorized_tags s')"

subsection \<open>Concrete registries\<close>

text \<open>A persisted string of fifty codes, the map it decodes to, and one of fifty-one.\<close>

definition fifty_codes :: string where
  "fifty_codes = ''A:u,B:u,C:u,D:u,E:u,F:u,G:u,H:u,I:u,J:u,K:u,L:u,M:u,N:u,O:u,P:u,Q:u,R:u,S:u,T:u,U:u,V:u,W:u,X:u,Y:u,Z:u,a:u,b:u,c:u,d:u,e:u,f:u,g:u,h:u,i:u,j:u,k:u,l:u,m:u,n:u,o:u,p:u,q:u,r:u,s:u,t:u,u:u,v:u,w:u,x:u''"

definition fifty_map :: cred_map where
  "fifty_map = map (\<lambda>c. ([c], ''u''))
     ''ABCDEFGHIJKLMNOPQRSTUVWXYZabcdefghijklmnopqrstuvwx''"

definition full_state :: state where
  "full_state =
     \<lparr>authorized_codes = fifty_map, authorized_tags = [], initialized = True,
      stored_codes = fifty_codes, stored_tags = [], events = [Load Code, Load Tag]\<rparr>"

text \<open>The registry after adding the code \<^verbatim>\<open>"x"\<close> for \<^verbatim>\<open>"Ann"\<close> and the code \<^verbatim>\<open>"y"\<close> for the
  name \<^verbatim>\<open>"Bob,x:Eve"\<close> on a fresh process with nothing persisted.\<close>

definition comma_name_state :: state where
  "comma_name_state =
     \<lparr>authorized_codes = [(''x'', ''Ann''), (''y'', ''Bob,x:Eve'')], authorized_tags = [],
      initialized = True, stored_codes = ''x:Ann,y:Bob,x:Eve'', stored_tags = [],
      events = [Load Code, Load Tag, Store Code ''x:Ann'', Store Tag [],
        Store Code ''x:Ann,y:Bob,x:Eve'', Store Tag []]\<rparr>"

definition fifty_one_codes :: string where
  "fifty_one_codes = fifty_codes @ '',y:u''"

subsection \<open>Capacity invariant\<close>

text \<open>
  Both maps within their maximum; before the lazy load, both maps still empty and the
  persisted strings such that what they decode to is within the maximum.
\<close>

definition within_capacity :: "state \<Rightarrow> bool" where
  "within_capacity s \<longleftrightarrow>
     length (authorized_codes s) \<le> MAX_CODES \<and> length (authorized_tags s) \<le> MAX_TAGS"

definition loadable :: "state \<Rightarrow> bool" where
  "loadable s \<longleftrightarrow>
     authorized_codes s = [] \<and> authorized_tags s = [] \<and>
     (case parse_stored_credentials (stored_codes s) [] of
        None \<Rightarrow> True | Some m \<Rightarrow> length m \<le> MAX_CODES) \<and>
     (case parse_stored_credentials (stored_tags s) [] of
        None \<Rightarrow> True | Some m \<Rightarrow> length m \<le> MAX_TAGS)"

definition capacity_inv :: "state \<Rightarrow> bool" where
  "capacity_inv s \<longleftrightarrow> (if initialized s then within_capacity s else loadable s)"

section \<open>Verification\<close>

subsection \<open>Lemmas about strings and the codec\<close>

lemma find_char_less: "find_char c s = Some p \<Longrightarrow> p < length s"
  by (induction s arbitrary: p) (auto split: if_splits)

lemma find_char_None_iff: "find_char c s = None \<longleftrightarrow> c \<notin> set s"
  by (induction s) auto

lemma find_char_append: "c \<notin> set a \<Longrightarrow> find_char c (a @ c # b) = Some (length a)"
  by (induction a) auto

lemma parse_entry_total: "\<exists>m'. parse_entry e m = Some m'"
  by (auto simp: parse_entry_def substr_def substr_from_def dest!: find_char_less
      split: option.splits)

lemma parse_entry_colon:
  "CHR '':'' \<notin> set k \<Longrightarrow> parse_entry (k @ CHR '':'' # v) m = Some (map_assign k v m)"
  by (simp add: parse_entry_def find_char_append substr_def substr_from_def)

lemma parse_entry_no_colon: "CHR '':'' \<notin> set e \<Longrightarrow> parse_entry e m = Some m"
  by (simp add: parse_entry_def find_char_None_iff [THEN iffD2])

lemma parse_loop_total: "\<exists>m'. parse_loop d m = Some m'"
proof (induction d m rule: parse_loop.induct)
  case (1 data target_map)
  show ?case
  proof (cases "find_char CHR '','' data")
    case None
    then show ?thesis
      using parse_entry_total [of data target_map] by (simp add: parse_loop.simps)
  next
    case (Some pos)
    then have pos: "pos < length data"
      by (rule find_char_less)
    obtain m1 where m1: "parse_entry (take pos data) target_map = Some m1"
      using parse_entry_total by blast
    have "\<exists>m'. parse_loop (drop (Suc pos) data) m1 = Some m'"
      using "1.IH" [of pos "take pos data" m1 "drop (Suc pos) data"] Some m1
      by (simp add: substr_def erase_def)
    with Some m1 show ?thesis
      by (subst parse_loop.simps) (simp add: substr_def erase_def)
  qed
qed

lemma parse_loop_comma:
  "CHR '','' \<notin> set e \<Longrightarrow>
   parse_loop (e @ CHR '','' # rest) m =
     (case parse_entry e m of None \<Rightarrow> None | Some m' \<Rightarrow> parse_loop rest m')"
  by (subst parse_loop.simps) (simp add: find_char_append substr_def erase_def split: option.splits)

lemma parse_loop_last: "CHR '','' \<notin> set e \<Longrightarrow> parse_loop e m = parse_entry e m"
  by (subst parse_loop.simps) (simp add: find_char_None_iff [THEN iffD2])

lemma to_string_loop_False:
  "to_string_loop m r False = r @ concat (map (\<lambda>(k, v). CHR '','' # k @ CHR '':'' # v) m)"
  by (induction m arbitrary: r) auto

lemma credentials_to_string_Nil: "credentials_to_string [] = []"
  by (simp add: credentials_to_string_def)

lemma credentials_to_string_single: "credentials_to_string [(k, v)] = k @ CHR '':'' # v"
  by (simp add: credentials_to_string_def)

lemma credentials_to_string_Cons:
  "credentials_to_string ((k, v) # e # m) = k @ CHR '':'' # v @ CHR '','' # credentials_to_string (e # m)"
  by (cases e) (simp add: credentials_to_string_def to_string_loop_False)

lemma map_assign_snoc:
  "\<forall>k' \<in> set (map fst m). k' < k \<Longrightarrow> map_assign k v m = m @ [(k, v)]"
  by (induction m) auto

lemma roundtrip_loop:
  "m \<noteq> [] \<Longrightarrow> sorted_wrt (<) (map fst (acc @ m)) \<Longrightarrow>
   \<forall>(k, v) \<in> set m. CHR '','' \<notin> set k \<and> CHR '':'' \<notin> set k \<and> CHR '','' \<notin> set v \<Longrightarrow>
   parse_loop (credentials_to_string m) acc = Some (acc @ m)"
proof (induction m arbitrary: acc)
  case Nil
  then show ?case by simp
next
  case (Cons e m)
  obtain k v where e: "e = (k, v)" by (cases e)
  from Cons.prems e have clean: "CHR '','' \<notin> set k" "CHR '':'' \<notin> set k" "CHR '','' \<notin> set v"
    by auto
  from Cons.prems(2) e have "\<forall>k' \<in> set (map fst acc). k' < k"
    by (auto simp: sorted_wrt_append)
  then have assign: "map_assign k v acc = acc @ [(k, v)]"
    by (rule map_assign_snoc)
  from clean have nocomma: "CHR '','' \<notin> set (k @ CHR '':'' # v)"
    by simp
  show ?case
  proof (cases m)
    case Nil
    with e clean assign nocomma show ?thesis
      by (simp add: credentials_to_string_single parse_loop_last parse_entry_colon)
  next
    case (Cons e' m')
    have "parse_loop (credentials_to_string m) (acc @ [(k, v)]) = Some ((acc @ [(k, v)]) @ m)"
      using Cons.prems Cons e by (intro Cons.IH) auto
    with Cons e assign show ?thesis
      using parse_loop_comma [OF nocomma, of "credentials_to_string m" acc]
      by (simp add: credentials_to_string_Cons parse_entry_colon clean)
  qed
qed

lemma parse_stored_credentials_total: "\<exists>m'. parse_stored_credentials d m = Some m'"
  by (simp add: parse_stored_credentials_def parse_loop_total)

subsection \<open>Lemmas about the maps\<close>

lemma length_map_assign_le: "length (map_assign k v m) \<le> Suc (length m)"
  by (induction m) auto

lemma length_map_erase_le: "length (map_erase k m) \<le> length m"
  by (induction m) auto

lemma length_map_erase: "map_find k m \<noteq> None \<Longrightarrow> Suc (length (map_erase k m)) = length m"
  by (induction m) auto

lemma map_find_assign:
  "map_find k' (map_assign k v m) = (if k' = k then Some v else map_find k' m)"
  by (induction m) auto

lemma map_find_erase_other: "k' \<noteq> k \<Longrightarrow> map_find k' (map_erase k m) = map_find k' m"
  by (induction m) auto

lemma map_find_None_iff: "map_find k m = None \<longleftrightarrow> k \<notin> fst ` set m"
  by (induction m) (force split: if_splits)+

lemma set_map_erase_subset: "set (map_erase k m) \<subseteq> set m"
  by (induction m) (auto split: if_splits)

lemma map_find_erase_same: "wf_map m \<Longrightarrow> map_find k (map_erase k m) = None"
proof (induction m)
  case Nil
  then show ?case by simp
next
  case (Cons e m)
  obtain k' v' where e: "e = (k', v')" by (cases e)
  show ?case
  proof (cases "k = k'")
    case True
    with Cons.prems e have "k \<notin> fst ` set m"
      by (auto simp: wf_map_def)
    with True e show ?thesis
      by (simp add: map_find_None_iff)
  next
    case False
    with Cons e show ?thesis
      by (simp add: wf_map_def)
  qed
qed

lemma set_map_assign: "fst ` set (map_assign k v m) = insert k (fst ` set m)"
  by (induction k v m rule: map_assign.induct) (simp_all add: insert_commute)

lemma wf_map_assign: "wf_map m \<Longrightarrow> wf_map (map_assign k v m)"
proof (induction m)
  case Nil
  then show ?case by (simp add: wf_map_def)
next
  case (Cons e m)
  obtain k' v' where e: "e = (k', v')" by (cases e)
  from Cons.prems e have below: "\<forall>x \<in> fst ` set m. k' < x" and wf: "wf_map m"
    by (auto simp: wf_map_def)
  show ?case
  proof (cases "k = k'")
    case True
    with Cons.prems e show ?thesis by (simp add: wf_map_def)
  next
    case False
    show ?thesis
    proof (cases "k < k'")
      case True
      with Cons.prems e \<open>k \<noteq> k'\<close> show ?thesis
        by (auto simp: wf_map_def)
    next
      case False
      with \<open>k \<noteq> k'\<close> have "k' < k" by simp
      with below have "\<forall>x \<in> fst ` set (map_assign k v m). k' < x"
        by (simp add: set_map_assign)
      moreover have "wf_map (map_assign k v m)"
        using wf by (rule Cons.IH)
      ultimately show ?thesis
        using e False \<open>k \<noteq> k'\<close> by (simp add: wf_map_def)
    qed
  qed
qed

lemma wf_map_erase: "wf_map m \<Longrightarrow> wf_map (map_erase k m)"
proof (induction m)
  case Nil
  then show ?case by simp
next
  case (Cons e m)
  obtain k' v' where e: "e = (k', v')" by (cases e)
  from Cons.prems e have below: "\<forall>x \<in> fst ` set m. k' < x" and wf: "wf_map m"
    by (auto simp: wf_map_def)
  from below have "\<forall>x \<in> fst ` set (map_erase k m). k' < x"
    using set_map_erase_subset [of k m] by blast
  with Cons.IH [OF wf] wf e show ?case
    by (simp add: wf_map_def)
qed

lemma wf_parse_entry: "wf_map m \<Longrightarrow> parse_entry e m = Some m' \<Longrightarrow> wf_map m'"
  by (auto simp: parse_entry_def wf_map_assign split: option.splits)

lemma wf_parse_loop: "wf_map m \<Longrightarrow> parse_loop d m = Some m' \<Longrightarrow> wf_map m'"
proof (induction d m arbitrary: m' rule: parse_loop.induct)
  case (1 data target_map)
  show ?case
  proof (cases "find_char CHR '','' data")
    case None
    with "1.prems" show ?thesis
      by (subst (asm) parse_loop.simps) (simp add: wf_parse_entry)
  next
    case (Some pos)
    from "1.prems"(2) Some obtain m1 where
      m1: "parse_entry (take pos data) target_map = Some m1" and
      rest: "parse_loop (drop (Suc pos) data) m1 = Some m'"
      by (subst (asm) parse_loop.simps)
        (auto simp: substr_def erase_def split: option.splits)
    from "1.prems"(1) m1 have "wf_map m1"
      by (rule wf_parse_entry)
    then show ?thesis
      using "1.IH" [of pos "take pos data" m1 "drop (Suc pos) data" m'] Some m1 rest
      by (simp add: substr_def erase_def)
  qed
qed

lemma wf_parse_stored_credentials:
  "wf_map m \<Longrightarrow> parse_stored_credentials d m = Some m' \<Longrightarrow> wf_map m'"
  by (auto simp: parse_stored_credentials_def wf_parse_loop split: if_splits)

subsection \<open>Lemmas about the lazy load and the saving\<close>

lemma init_default_auth_total: "\<exists>s'. init_default_auth s = Some s'"
proof -
  obtain c where "parse_stored_credentials (stored_codes s) (authorized_codes s) = Some c"
    using parse_stored_credentials_total by blast
  moreover obtain t where "parse_stored_credentials (stored_tags s) (authorized_tags s) = Some t"
    using parse_stored_credentials_total by blast
  ultimately show ?thesis
    by (simp add: init_default_auth_def)
qed

lemma init_default_auth_initialized: "initialized s \<Longrightarrow> init_default_auth s = Some s"
  by (simp add: init_default_auth_def)

lemma init_default_auth_result:
  assumes "init_default_auth s0 = Some s"
  shows "initialized s" and "stores s = stores s0"
    and "stored_codes s = stored_codes s0" and "stored_tags s = stored_tags s0"
  using assms
  by (auto simp: init_default_auth_def stores_def Let_def split: if_splits option.splits)

lemma stores_save_credentials:
  "stores (save_credentials s) = stores s @
     [Store Code (credentials_to_string (authorized_codes s)),
      Store Tag (credentials_to_string (authorized_tags s))]"
  by (simp add: save_credentials_def stores_def Let_def)

lemma save_credentials_maps [simp]:
  "authorized_codes (save_credentials s) = authorized_codes s"
  "authorized_tags (save_credentials s) = authorized_tags s"
  "initialized (save_credentials s) = initialized s"
  "stored_codes (save_credentials s) = credentials_to_string (authorized_codes s)"
  "stored_tags (save_credentials s) = credentials_to_string (authorized_tags s)"
  by (simp_all add: save_credentials_def Let_def)

lemma saved_once_save:
  "stores s = stores s0 \<Longrightarrow> saved_once s0 (save_credentials s)"
  by (simp add: saved_once_def stores_save_credentials)

lemma find_char_split:
  "find_char c s = Some p \<Longrightarrow> s = take p s @ c # drop (Suc p) s \<and> c \<notin> set (take p s)"
  by (induction s arbitrary: p) (auto split: if_splits)

subsection \<open>Claims about the codec\<close>

text \<open>
  C4: decoding \<^verbatim>\<open>"a:1,bad,b:2"\<close> into an empty map gives exactly the two entries
  \<open>a \<mapsto> 1\<close> and \<open>b \<mapsto> 2\<close>: the entry without a colon is dropped and the entry after the
  last comma is kept. No string makes the decoder throw: it returns a map for every
  stored string and every target map.
\<close>

theorem decode_lenient:
  "parse_stored_credentials ''a:1,bad,b:2'' [] = Some [(''a'', ''1''), (''b'', ''2'')] \<and>
   (\<exists>target_map'. parse_stored_credentials stored_data target_map = Some target_map')"
proof
  show "parse_stored_credentials ''a:1,bad,b:2'' [] = Some [(''a'', ''1''), (''b'', ''2'')]"
    by code_simp
  show "\<exists>target_map'. parse_stored_credentials stored_data target_map = Some target_map'"
    by (rule parse_stored_credentials_total)
qed

text \<open>
  C7: for every map (keys strictly ascending, as a \<^verbatim>\<open>std::map\<close> holds them) whose keys
  have neither a comma nor a colon and whose values have no comma, decoding the encoded
  map gives the map back. Values may contain colons: an entry is split at its first colon.
\<close>

theorem decode_encode_roundtrip:
  assumes "wf_map m"
    and "\<forall>(k, v) \<in> set m. CHR '','' \<notin> set k \<and> CHR '':'' \<notin> set k \<and> CHR '','' \<notin> set v"
  shows "parse_stored_credentials (credentials_to_string m) [] = Some m"
proof (cases m)
  case Nil
  then show ?thesis
    by (simp add: parse_stored_credentials_def credentials_to_string_Nil)
next
  case (Cons e m')
  with assms have "parse_loop (credentials_to_string m) [] = Some ([] @ m)"
    by (intro roundtrip_loop) (auto simp: wf_map_def)
  moreover have "credentials_to_string m \<noteq> []"
    using Cons by (cases e; cases m')
      (auto simp: credentials_to_string_single credentials_to_string_Cons)
  ultimately show ?thesis
    by (simp add: parse_stored_credentials_def)
qed

text \<open>The round trip at a map with an empty key, an empty value and a colon in a value.\<close>

theorem decode_encode_roundtrip_witness:
  "parse_stored_credentials (credentials_to_string [('''', ''a:b''), (''id'', '''')]) []
     = Some [('''', ''a:b''), (''id'', '''')] \<and>
   credentials_to_string [('''', ''a:b''), (''id'', '''')] = '':a:b,id:''"
proof -
  have "wf_map [('''', ''a:b''), (''id'', '''')]"
    by (simp add: wf_map_def)
  moreover have "\<forall>(k, v) \<in> set [('''', ''a:b''), (''id'', '''')].
      CHR '','' \<notin> set k \<and> CHR '':'' \<notin> set k \<and> CHR '','' \<notin> set v"
    by simp
  ultimately have "parse_stored_credentials (credentials_to_string [('''', ''a:b''), (''id'', '''')]) []
     = Some [('''', ''a:b''), (''id'', '''')]"
    by (rule decode_encode_roundtrip)
  moreover have "credentials_to_string [('''', ''a:b''), (''id'', '''')] = '':a:b,id:''"
    by (simp add: credentials_to_string_def)
  ultimately show ?thesis ..
qed

text \<open>
  C9: an entry with a colon is stored whatever is on either side of its first colon, an
  empty key and an empty value included, whether it is the last entry or is followed by
  a comma; an entry without any colon changes nothing.
\<close>

theorem decode_entry_with_colon:
  assumes "CHR '','' \<notin> set k" and "CHR '':'' \<notin> set k" and "CHR '','' \<notin> set v"
    and "CHR '','' \<notin> set e" and "CHR '':'' \<notin> set e"
  shows "parse_stored_credentials (k @ '':'' @ v) m = Some (map_assign k v m) \<and>
    parse_stored_credentials (k @ '':'' @ v @ '','' @ rest) m
      = parse_stored_credentials rest (map_assign k v m) \<and>
    parse_stored_credentials e m = Some m \<and>
    parse_stored_credentials (e @ '','' @ rest) m = parse_stored_credentials rest m"
proof -
  from assms have kv: "CHR '','' \<notin> set (k @ CHR '':'' # v)"
    by simp
  have rest: "parse_loop rest m' = parse_stored_credentials rest m'" for m'
    by (cases rest) (simp_all add: parse_stored_credentials_def parse_loop_last parse_entry_no_colon)
  have "parse_stored_credentials (k @ '':'' @ v) m = Some (map_assign k v m)"
    using kv assms(2) by (simp add: parse_stored_credentials_def parse_loop_last parse_entry_colon)
  moreover have "parse_stored_credentials (k @ '':'' @ v @ '','' @ rest) m
      = parse_stored_credentials rest (map_assign k v m)"
    using parse_loop_comma [OF kv, of rest m] assms(2)
    by (simp add: parse_stored_credentials_def parse_entry_colon rest)
  moreover have "parse_stored_credentials e m = Some m"
    using assms(4,5) by (simp add: parse_stored_credentials_def parse_loop_last parse_entry_no_colon)
  moreover have "parse_stored_credentials (e @ '','' @ rest) m = parse_stored_credentials rest m"
    using parse_loop_comma [OF assms(4), of rest m] assms(5)
    by (simp add: parse_stored_credentials_def parse_entry_no_colon rest)
  ultimately show ?thesis by blast
qed

text \<open>The entries \<^verbatim>\<open>":name"\<close> and \<^verbatim>\<open>"id:"\<close>, alone and in a list.\<close>

theorem decode_entry_with_colon_witness:
  "parse_stored_credentials '':name'' [] = Some [('''', ''name'')] \<and>
   parse_stored_credentials ''id:'' [] = Some [(''id'', '''')] \<and>
   parse_stored_credentials '':name,id:'' [] = Some [('''', ''name''), (''id'', '''')] \<and>
   parse_stored_credentials ''bad,id:'' [] = Some [(''id'', '''')]"
  using decode_entry_with_colon [of "''''" "''name''" "''bad''" "[]" "''id:''"]
    decode_entry_with_colon [of "''id''" "''''" "''bad''" "[('''', ''name'')]" "''''"]
    decode_entry_with_colon [of "''id''" "''''" "''bad''" "[]" "''id:''"]
  by simp

text \<open>
  C10: when the scanning loop finds a comma, what it erases is the prefix up to and
  including that first comma, and what is left is strictly shorter; so the loop ends, and
  the decoder returns a map on every input.
\<close>

theorem parse_loop_decreases:
  assumes "find_char CHR '','' data = Some pos"
  shows "data = take pos data @ '','' @ drop (pos + 1) data \<and>
    CHR '','' \<notin> set (take pos data) \<and>
    erase data 0 (pos + 1) = Some (drop (pos + 1) data) \<and>
    length (drop (pos + 1) data) < length data \<and>
    (\<exists>target_map'. parse_stored_credentials data target_map = Some target_map')"
  using find_char_split [OF assms] find_char_less [OF assms]
    parse_stored_credentials_total [of data target_map]
  by (simp add: erase_def)

text \<open>The first iteration on \<^verbatim>\<open>"a:1,bad,b:2"\<close>.\<close>

theorem parse_loop_decreases_witness:
  "find_char CHR '','' ''a:1,bad,b:2'' = Some 3 \<and>
   erase ''a:1,bad,b:2'' 0 (3 + 1) = Some ''bad,b:2'' \<and>
   length ''bad,b:2'' < length ''a:1,bad,b:2''"
proof -
  have found: "find_char CHR '','' ''a:1,bad,b:2'' = Some 3"
    by code_simp
  from parse_loop_decreases [OF found] found show ?thesis
    by simp
qed

subsection \<open>Lemmas about the operations\<close>

lemma add_credential_after_init:
  assumes "init_default_auth s0 = Some s"
  shows "add_authorized_code code name s0 =
      (if MAX_CODES \<le> length (authorized_codes s) then Some (CapacityExceeded, s)
       else Some (Done, save_credentials
         (s\<lparr>authorized_codes := map_assign code name (authorized_codes s)\<rparr>)))"
    and "add_authorized_tag tag name s0 =
      (if MAX_TAGS \<le> length (authorized_tags s) then Some (CapacityExceeded, s)
       else Some (Done, save_credentials
         (s\<lparr>authorized_tags := map_assign tag name (authorized_tags s)\<rparr>)))"
  using assms by (simp_all add: add_authorized_code_def add_authorized_tag_def)

lemma remove_credential_after_init:
  assumes "init_default_auth s0 = Some s"
  shows "remove_authorized_code code s0 =
      (if map_find code (authorized_codes s) = None then Some (NotFound, s)
       else Some (Done, save_credentials
         (s\<lparr>authorized_codes := map_erase code (authorized_codes s)\<rparr>)))"
    and "remove_authorized_tag tag s0 =
      (if map_find tag (authorized_tags s) = None then Some (NotFound, s)
       else Some (Done, save_credentials
         (s\<lparr>authorized_tags := map_erase tag (authorized_tags s)\<rparr>)))"
  using assms
  by (auto simp: remove_authorized_code_def remove_authorized_tag_def split: option.splits)

lemma lookup_after_init:
  assumes "init_default_auth s0 = Some s"
  shows "check_authorized_code code s0 = Some (map_find code (authorized_codes s) \<noteq> None, s)"
    and "check_authorized_tag tag s0 = Some (map_find tag (authorized_tags s) \<noteq> None, s)"
    and "get_code_user_name code s0 =
      Some (case map_find code (authorized_codes s) of Some name \<Rightarrow> name | None \<Rightarrow> ''Unknown'', s)"
    and "get_tag_user_name tag s0 =
      Some (case map_find tag (authorized_tags s) of Some name \<Rightarrow> name | None \<Rightarrow> ''Unknown'', s)"
    and "list_authorized_codes s0 = Some (authorized_codes s, s)"
    and "list_authorized_tags s0 = Some (authorized_tags s, s)"
  using assms
  by (auto simp: check_authorized_code_def check_authorized_tag_def get_code_user_name_def
      get_tag_user_name_def list_authorized_codes_def list_authorized_tags_def
      split: option.splits)

lemma stores_update_maps [simp]:
  "stores (s\<lparr>authorized_codes := m\<rparr>) = stores s"
  "stores (s\<lparr>authorized_tags := m\<rparr>) = stores s"
  by (simp_all add: stores_def)

subsection \<open>Claims about adding\<close>

text \<open>
  C1 does not hold as stated: an overwrite at capacity is refused. The registry loaded
  from fifty persisted codes is full. Adding the code \<^verbatim>\<open>"B"\<close>, which
  is one of the fifty, is refused like any other: the size test of lines 92-95 does not
  look at the key.
\<close>

theorem add_existing_id_at_capacity_refused:
  "run [ListCodes] (boot fifty_codes []) = Some full_state \<and>
   length (authorized_codes full_state) = MAX_CODES \<and>
   map_find ''B'' (authorized_codes full_state) = Some ''u'' \<and>
   add_authorized_code ''B'' ''new'' full_state = Some (CapacityExceeded, full_state)"
proof (intro conjI)
  show "run [ListCodes] (boot fifty_codes []) = Some full_state"
    by code_simp
  show "length (authorized_codes full_state) = MAX_CODES"
    by code_simp
  show "map_find ''B'' (authorized_codes full_state) = Some ''u''"
    by code_simp
  show "add_authorized_code ''B'' ''new'' full_state = Some (CapacityExceeded, full_state)"
    by code_simp
qed

text \<open>
  C1, as the code has it: after the lazy load, a map of the class with \<^verbatim>\<open>MAX\<close> or more
  entries makes the call fail with \<open>CapacityExceeded\<close> whether or not the id is a key,
  the state stays as it is and nothing is stored; a map with fewer entries gets the id
  inserted or overwritten, and both classes are stored once.
\<close>

theorem add_credential_capacity:
  assumes "init_default_auth s0 = Some s"
  shows "(capacity c \<le> length (creds c s) \<longrightarrow>
      add_credential c ident name s0 = Some (CapacityExceeded, s) \<and> stores s = stores s0) \<and>
    (length (creds c s) < capacity c \<longrightarrow>
      (\<exists>s'. add_credential c ident name s0 = Some (Done, s') \<and>
        creds c s' = map_assign ident name (creds c s) \<and>
        map_find ident (creds c s') = Some name \<and>
        length (creds c s') \<le> capacity c \<and>
        saved_once s0 s'))"
proof -
  have st: "stores s = stores s0"
    using assms by (rule init_default_auth_result)
  have len: "length (map_assign ident name m) \<le> n" if "length m < n" for m n
    using that length_map_assign_le [of ident name m] by simp
  show ?thesis
  proof (cases c)
    case Code
    then show ?thesis
      using st add_credential_after_init(1) [OF assms, of ident name]
      by (auto simp: map_find_assign len intro!: saved_once_save)
  next
    case Tag
    then show ?thesis
      using st add_credential_after_init(2) [OF assms, of ident name]
      by (auto simp: map_find_assign len intro!: saved_once_save)
  qed
qed

text \<open>Both cases on the full registry: a new code is refused, a first tag is added.\<close>

theorem add_credential_capacity_witness:
  "add_credential Code ''zz'' ''new'' full_state = Some (CapacityExceeded, full_state) \<and>
   (\<exists>s'. add_credential Tag ''B'' ''new'' full_state = Some (Done, s') \<and>
      creds Tag s' = [(''B'', ''new'')])"
proof -
  have init: "init_default_auth full_state = Some full_state"
    by (simp add: init_default_auth_def full_state_def)
  have "capacity Code \<le> length (creds Code full_state)"
    by (simp add: full_state_def fifty_map_def MAX_CODES_def)
  moreover have "length (creds Tag full_state) < capacity Tag"
    by (simp add: full_state_def MAX_TAGS_def)
  moreover have "map_assign ''B'' ''new'' (creds Tag full_state) = [(''B'', ''new'')]"
    by (simp add: full_state_def)
  ultimately show ?thesis
    using add_credential_capacity [OF init, of Code "''zz''" "''new''"]
      add_credential_capacity [OF init, of Tag "''B''" "''new''"]
    by auto
qed

subsection \<open>Claims about removing and persisting\<close>

lemma stored_string_decodes:
  assumes "saved_once s0 s" and "wf_map (creds c s)"
    and "\<forall>(k, v) \<in> set (creds c s).
      CHR '','' \<notin> set k \<and> CHR '':'' \<notin> set k \<and> CHR '','' \<notin> set v"
  shows "parse_stored_credentials (stored c s) [] = Some (creds c s)"
proof -
  have enc: "stored c s = credentials_to_string (creds c s)"
    using assms(1) by (cases c) (simp_all add: saved_once_def)
  show ?thesis
  proof (cases "creds c s")
    case Nil
    with enc show ?thesis
      by (simp add: parse_stored_credentials_def credentials_to_string_Nil)
  next
    case (Cons e m)
    with assms(2,3) have "parse_loop (credentials_to_string (creds c s)) []
        = Some ([] @ creds c s)"
      by (intro roundtrip_loop) (auto simp: wf_map_def)
    moreover have "credentials_to_string (creds c s) \<noteq> []"
      using Cons by (cases e; cases m)
        (auto simp: credentials_to_string_single credentials_to_string_Cons)
    ultimately show ?thesis
      using enc by (simp add: parse_stored_credentials_def)
  qed
qed

text \<open>
  C5 does not hold as stated: names are written to the string as they are, so a name
  with a comma can carry an entry of its own. With the codes \<^verbatim>\<open>"x"\<close> for \<^verbatim>\<open>"Ann"\<close> and
  \<^verbatim>\<open>"y"\<close> for \<^verbatim>\<open>"Bob,x:Eve"\<close>, removing \<^verbatim>\<open>"x"\<close> succeeds and takes it out of the map, but the
  string stored for the codes is \<^verbatim>\<open>"y:Bob,x:Eve"\<close>, which decodes to a map with the key
  \<^verbatim>\<open>"x"\<close>.
\<close>

theorem removed_id_in_stored_string:
  "run [AddCode ''x'' ''Ann'', AddCode ''y'' ''Bob,x:Eve''] (boot [] [])
     = Some comma_name_state \<and>
   map_find ''x'' (authorized_codes comma_name_state) = Some ''Ann'' \<and>
   map_option fst (remove_authorized_code ''x'' comma_name_state) = Some Done \<and>
   map_option (authorized_codes \<circ> snd) (remove_authorized_code ''x'' comma_name_state)
     = Some [(''y'', ''Bob,x:Eve'')] \<and>
   map_option (stored_codes \<circ> snd) (remove_authorized_code ''x'' comma_name_state)
     = Some ''y:Bob,x:Eve'' \<and>
   parse_stored_credentials ''y:Bob,x:Eve'' [] = Some [(''x'', ''Eve''), (''y'', ''Bob'')]"
proof (intro conjI)
  show "run [AddCode ''x'' ''Ann'', AddCode ''y'' ''Bob,x:Eve''] (boot [] [])
     = Some comma_name_state"
    by code_simp
  show "map_find ''x'' (authorized_codes comma_name_state) = Some ''Ann''"
    by code_simp
  show "map_option fst (remove_authorized_code ''x'' comma_name_state) = Some Done"
    by code_simp
  show "map_option (authorized_codes \<circ> snd) (remove_authorized_code ''x'' comma_name_state)
     = Some [(''y'', ''Bob,x:Eve'')]"
    by code_simp
  show "map_option (stored_codes \<circ> snd) (remove_authorized_code ''x'' comma_name_state)
     = Some ''y:Bob,x:Eve''"
    by code_simp
  show "parse_stored_credentials ''y:Bob,x:Eve'' [] = Some [(''x'', ''Eve''), (''y'', ''Bob'')]"
    by code_simp
qed

text \<open>
  C5, as the code has it: after the lazy load, removing an id that is not a key fails
  with \<open>NotFound\<close>, leaves the state as it is and stores nothing; removing an id that is
  a key succeeds, takes exactly that entry out of the map (the id is no longer a key,
  every other key keeps its name, the map is one entry shorter) and stores both classes
  once, the class's string being the encoding of the map without the id. When the ids
  that remain have no comma and no colon and the names that remain no comma, that string
  decodes to the map without the id, so the id is absent from it.
\<close>

theorem remove_credential_semantics:
  assumes "init_default_auth s0 = Some s" and "wf_map (creds c s)"
  shows "(map_find ident (creds c s) = None \<longrightarrow>
      remove_credential c ident s0 = Some (NotFound, s) \<and> stores s = stores s0) \<and>
    (map_find ident (creds c s) \<noteq> None \<longrightarrow>
      (\<exists>s'. remove_credential c ident s0 = Some (Done, s') \<and>
        creds c s' = map_erase ident (creds c s) \<and>
        map_find ident (creds c s') = None \<and>
        (\<forall>k. k \<noteq> ident \<longrightarrow> map_find k (creds c s') = map_find k (creds c s)) \<and>
        Suc (length (creds c s')) = length (creds c s) \<and>
        saved_once s0 s' \<and>
        stored c s' = credentials_to_string (map_erase ident (creds c s)) \<and>
        ((\<forall>(k, v) \<in> set (map_erase ident (creds c s)).
            CHR '','' \<notin> set k \<and> CHR '':'' \<notin> set k \<and> CHR '','' \<notin> set v) \<longrightarrow>
          parse_stored_credentials (stored c s') [] = Some (map_erase ident (creds c s)) \<and>
          map_option (map_find ident) (parse_stored_credentials (stored c s') []) = Some None)))"
proof -
  have st: "stores s = stores s0"
    using assms(1) by (rule init_default_auth_result)
  have absent: "remove_credential c ident s0 = Some (NotFound, s)"
    if "map_find ident (creds c s) = None"
    using that remove_credential_after_init [OF assms(1), of ident] by (cases c) auto
  have present: "\<exists>s'. remove_credential c ident s0 = Some (Done, s') \<and>
      creds c s' = map_erase ident (creds c s) \<and> saved_once s0 s'"
    if "map_find ident (creds c s) \<noteq> None"
    using that st remove_credential_after_init [OF assms(1), of ident]
    by (cases c) (auto intro!: saved_once_save)
  have erased: "map_find ident (map_erase ident (creds c s)) = None"
    using assms(2) by (rule map_find_erase_same)
  have wf': "wf_map (map_erase ident (creds c s))"
    using assms(2) by (rule wf_map_erase)
  {
    fix s'
    assume s': "creds c s' = map_erase ident (creds c s)" "saved_once s0 s'"
    have "stored c s' = credentials_to_string (map_erase ident (creds c s))"
      using s' by (cases c) (simp_all add: saved_once_def)
    moreover have "parse_stored_credentials (stored c s') [] = Some (map_erase ident (creds c s))"
      if "\<forall>(k, v) \<in> set (map_erase ident (creds c s)).
        CHR '','' \<notin> set k \<and> CHR '':'' \<notin> set k \<and> CHR '','' \<notin> set v"
      using stored_string_decodes [OF s'(2), of c] wf' that s'(1) by simp
    ultimately have "stored c s' = credentials_to_string (map_erase ident (creds c s)) \<and>
      ((\<forall>(k, v) \<in> set (map_erase ident (creds c s)).
          CHR '','' \<notin> set k \<and> CHR '':'' \<notin> set k \<and> CHR '','' \<notin> set v) \<longrightarrow>
        parse_stored_credentials (stored c s') [] = Some (map_erase ident (creds c s)) \<and>
        map_option (map_find ident) (parse_stored_credentials (stored c s') []) = Some None)"
      using erased by simp
  }
  note string = this
  show ?thesis
  proof (intro conjI impI)
    assume "map_find ident (creds c s) = None"
    then show "remove_credential c ident s0 = Some (NotFound, s)"
      by (rule absent)
  next
    show "stores s = stores s0"
      by (rule st)
  next
    assume "map_find ident (creds c s) \<noteq> None"
    with present obtain s' where s': "remove_credential c ident s0 = Some (Done, s')"
      "creds c s' = map_erase ident (creds c s)" "saved_once s0 s'"
      by blast
    have none: "map_find ident (creds c s') = None"
      using s'(2) erased by simp
    have others: "\<forall>k. k \<noteq> ident \<longrightarrow> map_find k (creds c s') = map_find k (creds c s)"
      using s'(2) by (simp add: map_find_erase_other)
    have len: "Suc (length (creds c s')) = length (creds c s)"
      using s'(2) \<open>map_find ident (creds c s) \<noteq> None\<close> by (simp add: length_map_erase)
    from s' none others len string [OF s'(2,3)]
    show "\<exists>s'. remove_credential c ident s0 = Some (Done, s') \<and>
        creds c s' = map_erase ident (creds c s) \<and>
        map_find ident (creds c s') = None \<and>
        (\<forall>k. k \<noteq> ident \<longrightarrow> map_find k (creds c s') = map_find k (creds c s)) \<and>
        Suc (length (creds c s')) = length (creds c s) \<and>
        saved_once s0 s' \<and>
        stored c s' = credentials_to_string (map_erase ident (creds c s)) \<and>
        ((\<forall>(k, v) \<in> set (map_erase ident (creds c s)).
            CHR '','' \<notin> set k \<and> CHR '':'' \<notin> set k \<and> CHR '','' \<notin> set v) \<longrightarrow>
          parse_stored_credentials (stored c s') [] = Some (map_erase ident (creds c s)) \<and>
          map_option (map_find ident) (parse_stored_credentials (stored c s') []) = Some None)"
      by blast
  qed
qed

text \<open>On the registry loaded from \<^verbatim>\<open>"x:Ann,y:Bob"\<close>: \<^verbatim>\<open>"z"\<close> is not found, \<^verbatim>\<open>"x"\<close> is removed,
  the string stored for the codes is \<^verbatim>\<open>"y:Bob"\<close> and decodes to a map without \<^verbatim>\<open>"x"\<close>.\<close>

theorem remove_credential_semantics_witness:
  "(\<exists>s. init_default_auth (boot ''x:Ann,y:Bob'' []) = Some s \<and>
      remove_credential Code ''z'' (boot ''x:Ann,y:Bob'' []) = Some (NotFound, s) \<and>
      stores s = []) \<and>
   (\<exists>s'. remove_credential Code ''x'' (boot ''x:Ann,y:Bob'' []) = Some (Done, s') \<and>
      creds Code s' = [(''y'', ''Bob'')] \<and>
      stores s' = [Store Code ''y:Bob'', Store Tag []] \<and>
      stored Code s' = ''y:Bob'' \<and>
      parse_stored_credentials (stored Code s') [] = Some [(''y'', ''Bob'')])"
proof -
  define s where "s = \<lparr>authorized_codes = [(''x'', ''Ann''), (''y'', ''Bob'')],
    authorized_tags = [], initialized = True, stored_codes = ''x:Ann,y:Bob'',
    stored_tags = [], events = [Load Code, Load Tag]\<rparr>"
  have init: "init_default_auth (boot ''x:Ann,y:Bob'' []) = Some s"
    unfolding s_def by code_simp
  have wf: "wf_map (creds Code s)"
    by (simp add: s_def wf_map_def)
  have absent: "map_find ''z'' (creds Code s) = None"
    and present: "map_find ''x'' (creds Code s) \<noteq> None"
    and erased: "map_erase ''x'' (creds Code s) = [(''y'', ''Bob'')]"
    by (simp_all add: s_def)
  have clean: "\<forall>(k, v) \<in> set (map_erase ''x'' (creds Code s)).
      CHR '','' \<notin> set k \<and> CHR '':'' \<notin> set k \<and> CHR '','' \<notin> set v"
    by (simp add: s_def)
  have boot: "stores (boot ''x:Ann,y:Bob'' []) = []"
    by (simp add: stores_def boot_def)
  have enc: "credentials_to_string [(''y'', ''Bob'')] = ''y:Bob''"
    "credentials_to_string [] = []"
    by (simp_all add: credentials_to_string_def)
  from remove_credential_semantics [OF init wf, of "''z''"] absent boot init
  have first: "\<exists>s. init_default_auth (boot ''x:Ann,y:Bob'' []) = Some s \<and>
      remove_credential Code ''z'' (boot ''x:Ann,y:Bob'' []) = Some (NotFound, s) \<and>
      stores s = []"
    by simp
  from remove_credential_semantics [OF init wf, of "''x''"] present clean obtain s' where
    s': "remove_credential Code ''x'' (boot ''x:Ann,y:Bob'' []) = Some (Done, s')"
      "creds Code s' = map_erase ''x'' (creds Code s)" "saved_once (boot ''x:Ann,y:Bob'' []) s'"
      "stored Code s' = credentials_to_string (map_erase ''x'' (creds Code s))"
      "parse_stored_credentials (stored Code s') [] = Some (map_erase ''x'' (creds Code s))"
    by blast
  have "authorized_tags s' = []"
    using s'(1) init by (auto simp: remove_authorized_code_def s_def)
  with s' erased boot enc have "creds Code s' = [(''y'', ''Bob'')] \<and>
      stores s' = [Store Code ''y:Bob'', Store Tag []] \<and>
      stored Code s' = ''y:Bob'' \<and>
      parse_stored_credentials (stored Code s') [] = Some [(''y'', ''Bob'')]"
    by (simp add: saved_once_def)
  with s'(1) first show ?thesis
    by blast
qed

text \<open>
  C6: a successful add, a successful remove and every clear (of an empty map too) call
  \<^verbatim>\<open>save_credentials\<close> exactly once: what has been stored grows by one pair, the
  encoding of the codes map and the encoding of the tags map as they are after the
  operation, and both persisted strings hold these encodings.
\<close>

theorem mutation_saves_both_classes_once:
  "(add_credential c ident name s0 = Some (Done, s1) \<longrightarrow> saved_once s0 s1) \<and>
   (remove_credential c ident s0 = Some (Done, s2) \<longrightarrow> saved_once s0 s2) \<and>
   (\<exists>s3. clear c s0 = Some (Done, s3) \<and> creds c s3 = [] \<and> saved_once s0 s3)"
proof -
  obtain s where init: "init_default_auth s0 = Some s"
    using init_default_auth_total by blast
  then have st: "stores s = stores s0"
    by (rule init_default_auth_result)
  have "saved_once s0 s1" if "add_credential c ident name s0 = Some (Done, s1)"
    using that st add_credential_after_init [OF init, of ident name]
    by (cases c) (auto split: if_splits intro!: saved_once_save)
  moreover have "saved_once s0 s2" if "remove_credential c ident s0 = Some (Done, s2)"
    using that st remove_credential_after_init [OF init, of ident]
    by (cases c) (auto split: if_splits intro!: saved_once_save)
  moreover have "\<exists>s3. clear c s0 = Some (Done, s3) \<and> creds c s3 = [] \<and> saved_once s0 s3"
    by (cases c) (auto simp: clear_all_codes_def clear_all_tags_def intro!: saved_once_save)
  ultimately show ?thesis
    by blast
qed

text \<open>Adding a tag to a fresh registry, removing it again, and clearing the empty codes.\<close>

theorem mutation_saves_both_classes_once_witness:
  "(\<exists>s1 s2 s3. add_credential Tag ''t'' ''Bob'' (boot ''c:Ann'' []) = Some (Done, s1) \<and>
      stores s1 = [Store Code ''c:Ann'', Store Tag ''t:Bob''] \<and>
      remove_credential Tag ''t'' s1 = Some (Done, s2) \<and>
      stores s2 = stores s1 @ [Store Code ''c:Ann'', Store Tag []] \<and>
      clear Tag s2 = Some (Done, s3) \<and>
      stores s3 = stores s2 @ [Store Code ''c:Ann'', Store Tag []])"
proof -
  define s1 where "s1 = \<lparr>authorized_codes = [(''c'', ''Ann'')],
    authorized_tags = [(''t'', ''Bob'')], initialized = True, stored_codes = ''c:Ann'',
    stored_tags = ''t:Bob'',
    events = [Load Code, Load Tag, Store Code ''c:Ann'', Store Tag ''t:Bob'']\<rparr>"
  define s2 where "s2 = \<lparr>authorized_codes = [(''c'', ''Ann'')],
    authorized_tags = [], initialized = True, stored_codes = ''c:Ann'', stored_tags = [],
    events = [Load Code, Load Tag, Store Code ''c:Ann'', Store Tag ''t:Bob'',
      Store Code ''c:Ann'', Store Tag []]\<rparr>"
  have add: "add_credential Tag ''t'' ''Bob'' (boot ''c:Ann'' []) = Some (Done, s1)"
    unfolding s1_def by code_simp
  have remove: "remove_credential Tag ''t'' s1 = Some (Done, s2)"
    unfolding s1_def s2_def by code_simp
  have enc: "credentials_to_string [(''c'', ''Ann'')] = ''c:Ann''"
    "credentials_to_string [(''t'', ''Bob'')] = ''t:Bob''" "credentials_to_string [] = []"
    by (simp_all add: credentials_to_string_def)
  have "saved_once (boot ''c:Ann'' []) s1"
    using mutation_saves_both_classes_once [of Tag "''t''" "''Bob''" "boot ''c:Ann'' []" s1] add
    by simp
  then have a: "stores s1 = [Store Code ''c:Ann'', Store Tag ''t:Bob'']"
    by (simp add: saved_once_def s1_def enc stores_def boot_def)
  have "saved_once s1 s2"
    using mutation_saves_both_classes_once [of Tag "''t''" _ s1 _ s2] remove
    by simp
  then have b: "stores s2 = stores s1 @ [Store Code ''c:Ann'', Store Tag []]"
    by (simp add: saved_once_def s2_def enc)
  obtain s3 where clear: "clear Tag s2 = Some (Done, s3)" and "creds Tag s3 = []"
    and "saved_once s2 s3"
    using mutation_saves_both_classes_once [of Tag _ _ s2] by blast
  moreover from this have "authorized_codes s3 = [(''c'', ''Ann'')]"
    by (auto simp: clear_all_tags_def s2_def)
  ultimately have c: "stores s3 = stores s2 @ [Store Code ''c:Ann'', Store Tag []]"
    by (simp add: saved_once_def enc)
  from add a remove b clear c show ?thesis
    by blast
qed

subsection \<open>Sequences of calls\<close>

lemma exec_total: "\<exists>s'. exec call s = Some s'"
proof -
  obtain s1 where init: "init_default_auth s = Some s1"
    using init_default_auth_total by blast
  show ?thesis
    using add_credential_after_init [OF init] remove_credential_after_init [OF init]
      lookup_after_init [OF init]
    by (cases call) (auto simp: clear_all_codes_def clear_all_tags_def)
qed

lemma run_total: "\<exists>s'. run calls s = Some s'"
proof (induction calls arbitrary: s)
  case Nil
  show ?case by simp
next
  case (Cons call calls)
  obtain s1 where "exec call s = Some s1"
    using exec_total by blast
  with Cons.IH [of s1] show ?case by simp
qed

lemma run_invariant:
  assumes step: "\<And>call s s'. P s \<Longrightarrow> exec call s = Some s' \<Longrightarrow> P s'"
  shows "P s \<Longrightarrow> run calls s = Some s' \<Longrightarrow> P s'"
proof (induction calls arbitrary: s)
  case Nil
  then show ?case by simp
next
  case (Cons call calls)
  from Cons.prems(2) obtain s1 where s1: "exec call s = Some s1" and "run calls s1 = Some s'"
    by (auto split: option.splits)
  with Cons.IH [of s1] step [OF Cons.prems(1) s1] show ?case
    by blast
qed

text \<open>The states a process reaches hold two maps with strictly ascending keys.\<close>

lemma init_default_auth_wf:
  assumes "init_default_auth s0 = Some s"
    and "wf_map (authorized_codes s0)" and "wf_map (authorized_tags s0)"
  shows "wf_map (authorized_codes s) \<and> wf_map (authorized_tags s)"
  using assms
  by (auto simp: init_default_auth_def Let_def split: if_splits option.splits
      dest: wf_parse_stored_credentials)

lemma exec_wf:
  assumes "wf_map (authorized_codes s) \<and> wf_map (authorized_tags s)"
    and "exec call s = Some s'"
  shows "wf_map (authorized_codes s') \<and> wf_map (authorized_tags s')"
proof -
  obtain s1 where init: "init_default_auth s = Some s1"
    using init_default_auth_total by blast
  with assms(1) have wf1: "wf_map (authorized_codes s1) \<and> wf_map (authorized_tags s1)"
    using init_default_auth_wf by blast
  have nil: "wf_map []"
    by (simp add: wf_map_def)
  show ?thesis
    using assms wf1 nil add_credential_after_init [OF init]
      remove_credential_after_init [OF init] lookup_after_init [OF init]
    by (cases call)
      (auto simp: clear_all_codes_def clear_all_tags_def wf_map_assign wf_map_erase
        split: if_splits)
qed

lemma run_wf:
  assumes "run calls (boot codes_data tags_data) = Some s"
  shows "wf_map (authorized_codes s) \<and> wf_map (authorized_tags s)"
proof (rule run_invariant [where P = "\<lambda>s. wf_map (authorized_codes s) \<and> wf_map (authorized_tags s)", OF _ _ assms])
  show "wf_map (authorized_codes (boot codes_data tags_data))
      \<and> wf_map (authorized_tags (boot codes_data tags_data))"
    by (simp add: boot_def wf_map_def)
qed (rule exec_wf)

text \<open>Every function that calls \<^verbatim>\<open>init_default_auth\<close> reads each persisted string once,
  on the first such call; the clearing functions never read them.\<close>

lemma init_default_auth_loads:
  assumes "init_default_auth s0 = Some s"
    and "loads c s0 = (if initialized s0 then 1 else 0)"
  shows "initialized s \<and> loads c s = 1"
  using assms
  by (cases c)
    (auto simp: init_default_auth_def loads_def Let_def split: if_splits option.splits)

lemma loads_save_credentials [simp]: "loads c (save_credentials s) = loads c s"
  by (simp add: loads_def save_credentials_def Let_def)

lemma loads_update_maps [simp]:
  "loads c (s\<lparr>authorized_codes := m\<rparr>) = loads c s"
  "loads c (s\<lparr>authorized_tags := m\<rparr>) = loads c s"
  by (simp_all add: loads_def)

lemma exec_loads:
  assumes "loads c s = (if initialized s then 1 else 0)" and "exec call s = Some s'"
  shows "loads c s' = (if initialized s' then 1 else 0)"
proof -
  obtain s1 where init: "init_default_auth s = Some s1"
    using init_default_auth_total by blast
  with assms(1) have s1: "initialized s1 \<and> loads c s1 = 1"
    using init_default_auth_loads by blast
  show ?thesis
    using assms s1 add_credential_after_init [OF init]
      remove_credential_after_init [OF init] lookup_after_init [OF init]
    by (cases call) (auto simp: clear_all_codes_def clear_all_tags_def split: if_splits)
qed

lemma run_loads:
  assumes "run calls (boot codes_data tags_data) = Some s"
  shows "loads c s = (if initialized s then 1 else 0)"
proof (rule run_invariant [where P = "\<lambda>s. loads c s = (if initialized s then 1 else 0)", OF _ _ assms])
  show "loads c (boot codes_data tags_data) = (if initialized (boot codes_data tags_data) then 1 else 0)"
    by (simp add: boot_def loads_def)
qed (rule exec_loads)

subsection \<open>Claims about lazy initialization\<close>

text \<open>
  C2: \<^verbatim>\<open>clear_all_codes\<close> does not start with the lazy load. Called first on a fresh
  process with persisted codes and tags, it reads neither string, leaves the registry
  uninitialized and stores two empty strings, so the persisted tags are gone as well.
\<close>

theorem clear_all_codes_skips_init:
  "\<exists>s. clear_all_codes (boot ''1234:Alice'' ''t:Bob'') = Some (Done, s) \<and>
     \<not> initialized s \<and> loads Code s = 0 \<and> loads Tag s = 0 \<and>
     stored_codes s = [] \<and> stored_tags s = []"
  by (simp add: clear_all_codes_def save_credentials_def boot_def loads_def
      credentials_to_string_def)

subsection \<open>Claims about the capacity\<close>

lemma init_default_auth_capacity:
  assumes "capacity_inv s0" and "init_default_auth s0 = Some s"
  shows "initialized s \<and> within_capacity s"
proof (cases "initialized s0")
  case True
  with assms show ?thesis
    by (simp add: init_default_auth_def capacity_inv_def)
next
  case False
  with assms(1) have "loadable s0"
    by (simp add: capacity_inv_def)
  with assms(2) False show ?thesis
    by (auto simp: init_default_auth_def loadable_def within_capacity_def Let_def
        split: option.splits)
qed

lemma clear_capacity:
  assumes "capacity_inv s"
  shows "capacity_inv (save_credentials (s\<lparr>authorized_codes := []\<rparr>))"
    and "capacity_inv (save_credentials (s\<lparr>authorized_tags := []\<rparr>))"
  using assms
  by (auto simp: capacity_inv_def within_capacity_def loadable_def
      credentials_to_string_Nil parse_stored_credentials_def split: if_splits)

lemma exec_capacity:
  assumes "capacity_inv s" and "exec call s = Some s'"
  shows "capacity_inv s'"
proof -
  obtain s1 where init: "init_default_auth s = Some s1"
    using init_default_auth_total by blast
  with assms(1) have s1: "initialized s1" "within_capacity s1"
    using init_default_auth_capacity by blast+
  then have inv1: "capacity_inv s1"
    by (simp add: capacity_inv_def)
  have grow: "length (map_assign k v m) \<le> n" if "\<not> n \<le> length m" for k v m n
    using that length_map_assign_le [of k v m] by simp
  have shrink: "length (map_erase k m) \<le> n" if "length m \<le> n" for k m n
    using that length_map_erase_le [of k m] by simp
  show ?thesis
  proof (cases call)
    case (AddCode code name)
    with assms(2) s1 show ?thesis
      using add_credential_after_init(1) [OF init, of code name]
      by (auto simp: capacity_inv_def within_capacity_def grow split: if_splits)
  next
    case (AddTag tag name)
    with assms(2) s1 show ?thesis
      using add_credential_after_init(2) [OF init, of tag name]
      by (auto simp: capacity_inv_def within_capacity_def grow split: if_splits)
  next
    case (RemoveCode code)
    with assms(2) s1 show ?thesis
      using remove_credential_after_init(1) [OF init, of code]
      by (auto simp: capacity_inv_def within_capacity_def shrink split: if_splits)
  next
    case (RemoveTag tag)
    with assms(2) s1 show ?thesis
      using remove_credential_after_init(2) [OF init, of tag]
      by (auto simp: capacity_inv_def within_capacity_def shrink split: if_splits)
  next
    case ClearCodes
    with assms show ?thesis
      by (auto simp: clear_all_codes_def clear_capacity)
  next
    case ClearTags
    with assms show ?thesis
      by (auto simp: clear_all_tags_def clear_capacity)
  qed (use assms(2) inv1 lookup_after_init [OF init] in auto)
qed

text \<open>
  C3 does not hold as stated: the lazy load has no capacity test, and a persisted string
  of fifty-one codes gives a map of fifty-one entries.
\<close>

theorem lazy_init_exceeds_capacity:
  "map_option (length \<circ> authorized_codes) (run [ListCodes] (boot fifty_one_codes []))
     = Some 51 \<and> MAX_CODES = 50"
proof
  show "map_option (length \<circ> authorized_codes) (run [ListCodes] (boot fifty_one_codes []))
     = Some 51"
    by code_simp
  show "MAX_CODES = 50"
    by (simp add: MAX_CODES_def)
qed

text \<open>
  C3, as the code has it: when each persisted string decodes to at most \<^verbatim>\<open>MAX\<close> entries,
  every sequence of calls on a fresh process ends in a state whose codes map has at most
  \<^verbatim>\<open>MAX_CODES\<close> and whose tags map at most \<^verbatim>\<open>MAX_TAGS\<close> entries.
\<close>

theorem capacity_invariant:
  assumes "parse_stored_credentials codes_data [] = Some codes"
    and "length codes \<le> MAX_CODES"
    and "parse_stored_credentials tags_data [] = Some tags"
    and "length tags \<le> MAX_TAGS"
  shows "\<exists>s. run calls (boot codes_data tags_data) = Some s \<and>
    length (authorized_codes s) \<le> MAX_CODES \<and> length (authorized_tags s) \<le> MAX_TAGS"
proof -
  obtain s where s: "run calls (boot codes_data tags_data) = Some s"
    using run_total by blast
  have "capacity_inv (boot codes_data tags_data)"
    using assms by (simp add: capacity_inv_def loadable_def boot_def)
  with s have inv: "capacity_inv s"
    using run_invariant [of capacity_inv "boot codes_data tags_data" calls s] exec_capacity
    by blast
  have "within_capacity s"
  proof (cases "initialized s")
    case True
    with inv show ?thesis
      by (simp add: capacity_inv_def)
  next
    case False
    with inv show ?thesis
      by (simp add: capacity_inv_def loadable_def within_capacity_def)
  qed
  with s show ?thesis
    by (simp add: within_capacity_def)
qed

text \<open>Fifty persisted codes: after a refused add, a remove and an add there are fifty.\<close>

theorem capacity_invariant_witness:
  "\<exists>s. run [AddCode ''y'' ''new'', RemoveCode ''A'', AddCode ''y'' ''new'', AddTag ''t'' ''Bob'']
       (boot fifty_codes []) = Some s \<and>
     length (authorized_codes s) \<le> MAX_CODES \<and> length (authorized_tags s) \<le> MAX_TAGS"
proof -
  have codes: "parse_stored_credentials fifty_codes [] = Some fifty_map"
    by code_simp
  have "length fifty_map \<le> MAX_CODES"
    by (simp add: fifty_map_def MAX_CODES_def)
  moreover have "parse_stored_credentials [] [] = Some []"
    by (simp add: parse_stored_credentials_def)
  moreover have "length ([] :: cred_map) \<le> MAX_TAGS"
    by simp
  ultimately show ?thesis
    by (rule capacity_invariant [OF codes])
qed

subsection \<open>Claims about the other class\<close>

text \<open>
  C8 does not hold as stated: the first call on a fresh process loads both maps, so
  adding a code changes the tags map from empty to what the persisted tags decode to.
\<close>

theorem add_code_loads_tags:
  "authorized_tags (boot [] ''t:Bob'') = [] \<and>
   map_option (authorized_tags \<circ> snd) (add_authorized_code ''1'' ''Ann'' (boot [] ''t:Bob''))
     = Some [(''t'', ''Bob'')]"
proof
  show "authorized_tags (boot [] ''t:Bob'') = []"
    by (simp add: boot_def)
  show "map_option (authorized_tags \<circ> snd) (add_authorized_code ''1'' ''Ann'' (boot [] ''t:Bob''))
     = Some [(''t'', ''Bob'')]"
    by code_simp
qed

text \<open>
  C8, as the code has it: apart from the lazy load, which the first add, remove, lookup
  or listing of either class performs on both maps, an operation on one class leaves the
  map of the other class as it is. In an initialized registry the lazy load does nothing,
  so there every operation, clearing included, leaves the other map unchanged.
\<close>

theorem other_class_unchanged:
  assumes "init_default_auth s0 = Some s"
  shows "(\<exists>r s'. add_credential c ident name s0 = Some (r, s') \<and>
      creds (other c) s' = creds (other c) s) \<and>
    (\<exists>r s'. remove_credential c ident s0 = Some (r, s') \<and>
      creds (other c) s' = creds (other c) s) \<and>
    (\<exists>r s'. is_authorized c ident s0 = Some (r, s') \<and>
      creds (other c) s' = creds (other c) s) \<and>
    (\<exists>r s'. principal_name c ident s0 = Some (r, s') \<and>
      creds (other c) s' = creds (other c) s) \<and>
    (\<exists>r s'. list_credentials c s0 = Some (r, s') \<and>
      creds (other c) s' = creds (other c) s) \<and>
    (initialized s0 \<longrightarrow> s = s0 \<and>
      (\<exists>r s'. clear c s0 = Some (r, s') \<and> creds (other c) s' = creds (other c) s0))"
proof -
  have "\<exists>r s'. add_credential c ident name s0 = Some (r, s') \<and>
      creds (other c) s' = creds (other c) s"
    using add_credential_after_init [OF assms, of ident name] by (cases c) auto
  moreover have "\<exists>r s'. remove_credential c ident s0 = Some (r, s') \<and>
      creds (other c) s' = creds (other c) s"
    using remove_credential_after_init [OF assms, of ident] by (cases c) auto
  moreover have "\<exists>r s'. is_authorized c ident s0 = Some (r, s') \<and>
      creds (other c) s' = creds (other c) s"
    using lookup_after_init(1,2) [OF assms, of ident] by (cases c) auto
  moreover have "\<exists>r s'. principal_name c ident s0 = Some (r, s') \<and>
      creds (other c) s' = creds (other c) s"
    using lookup_after_init(3,4) [OF assms, of ident] by (cases c) auto
  moreover have "\<exists>r s'. list_credentials c s0 = Some (r, s') \<and>
      creds (other c) s' = creds (other c) s"
    using lookup_after_init(5,6) [OF assms] by (cases c) auto
  moreover have "initialized s0 \<longrightarrow> s = s0"
    using assms init_default_auth_initialized [of s0] by auto
  moreover have "\<exists>r s'. clear c s0 = Some (r, s') \<and> creds (other c) s' = creds (other c) s0"
    by (cases c) (auto simp: clear_all_codes_def clear_all_tags_def)
  ultimately show ?thesis
    by blast
qed

text \<open>On the full registry, which is initialized, removing or clearing the codes leaves
  the tags and adding a tag leaves the codes.\<close>

theorem other_class_unchanged_witness:
  "initialized full_state \<and>
   (\<exists>r s'. remove_credential Code ''A'' full_state = Some (r, s') \<and>
      authorized_tags s' = authorized_tags full_state) \<and>
   (\<exists>r s'. clear Code full_state = Some (r, s') \<and>
      authorized_tags s' = authorized_tags full_state) \<and>
   (\<exists>r s'. add_credential Tag ''t'' ''Bob'' full_state = Some (r, s') \<and>
      authorized_codes s' = authorized_codes full_state)"
proof -
  have init: "init_default_auth full_state = Some full_state"
    by (simp add: init_default_auth_def full_state_def)
  have "initialized full_state"
    by (simp add: full_state_def)
  then show ?thesis
    using other_class_unchanged [OF init, of Code "''A''"]
      other_class_unchanged [OF init, of Tag "''t''" "''Bob''"]
    by simp
qed

end
